theory Spec2Isabelle
  imports Main
begin

section \<open>Errors and results\<close>

text \<open>
  The exceptions the two source files can let escape. \<open>ValueError\<close> carries the message,
  since \<open>solve_puzzle\<close> and \<open>parse_board_from_txt\<close> raise it with different texts.
  \<open>IndexError\<close> is Python's list index out of range, \<open>OSError\<close> a failed \<open>read_text\<close>,
  and \<open>NotInstantiated\<close> stands for whatever the constraint library raises when the value
  of a variable is read although no solution has been found. \<open>LibraryAbort\<close> is the end
  of the whole process inside the library, which happens when it is asked for an empty
  array of variables: nothing is returned to the caller then.
\<close>

datatype error = ValueError string | IndexError | OSError | NotInstantiated | LibraryAbort

abbreviation msg_no_input :: string where
  "msg_no_input \<equiv> ''Either puzzle_text_path or puzzle_matrix must be provided.''"

abbreviation msg_row_lengths :: string where
  "msg_row_lengths \<equiv> ''Inconsistent row lengths in board representation.''"

record 'a result =
  number_of_solutions :: nat
  initial_board :: "'a list list"
  queens :: "(nat \<times> int) list"

section \<open>The text parser (visuals.py)\<close>

text \<open>
  Python strings are modelled as \<open>string\<close> with one \<open>char\<close> per code point below 256.
  \<open>is_space\<close> lists the code points below 256 for which \<open>str.isspace\<close> is true, and
  \<open>is_linebreak\<close> those at which \<open>str.splitlines\<close> breaks a line.
\<close>

definition is_space :: "char \<Rightarrow> bool" where
  "is_space c \<longleftrightarrow> c \<in> set [CHR 0x09, CHR 0x0A, CHR 0x0B, CHR 0x0C, CHR 0x0D,
     CHR 0x1C, CHR 0x1D, CHR 0x1E, CHR 0x1F, CHR 0x20, CHR 0x85, CHR 0xA0]"

definition is_linebreak :: "char \<Rightarrow> bool" where
  "is_linebreak c \<longleftrightarrow> c \<in> set [CHR 0x0A, CHR 0x0B, CHR 0x0C, CHR 0x0D,
     CHR 0x1C, CHR 0x1D, CHR 0x1E, CHR 0x85]"

text \<open>\<open>splitlines_from cur s\<close>: the lines of \<open>s\<close>, \<open>cur\<close> being the line read so far.
  A carriage return followed by a line feed is one break; a final break opens no new line.\<close>

fun splitlines_from :: "string \<Rightarrow> string \<Rightarrow> string list" where
  "splitlines_from cur [] = (if cur = [] then [] else [cur])"
| "splitlines_from cur [c] = (if is_linebreak c then [cur] else [cur @ [c]])"
| "splitlines_from cur (c # d # cs) =
     (if c = CHR 0x0D \<and> d = CHR 0x0A then cur # splitlines_from [] cs
      else if is_linebreak c then cur # splitlines_from [] (d # cs)
      else splitlines_from (cur @ [c]) (d # cs))"

definition splitlines :: "string \<Rightarrow> string list" where
  "splitlines s = splitlines_from [] s"

definition strip :: "string \<Rightarrow> string" where
  "strip s = rev (dropWhile is_space (rev (dropWhile is_space s)))"

text \<open>\<open>line.split(",")\<close>: one more piece than there are separators.\<close>

fun split_on :: "char \<Rightarrow> string \<Rightarrow> string list" where
  "split_on d [] = [[]]"
| "split_on d (c # cs) =
     (if c = d then [] # split_on d cs
      else (case split_on d cs of [] \<Rightarrow> [[c]] | p # ps \<Rightarrow> (c # p) # ps))"

text \<open>\<open>line.split()\<close>: the maximal runs of non-whitespace.\<close>

fun split_ws_from :: "string \<Rightarrow> string \<Rightarrow> string list" where
  "split_ws_from cur [] = (if cur = [] then [] else [cur])"
| "split_ws_from cur (c # cs) =
     (if is_space c then (if cur = [] then split_ws_from [] cs else cur # split_ws_from [] cs)
      else split_ws_from (cur @ [c]) cs)"

definition split_ws :: "string \<Rightarrow> string list" where
  "split_ws s = split_ws_from [] s"

text \<open>The body of the parser's loop for one stripped, non-empty line.\<close>

definition parse_line :: "string \<Rightarrow> string list" where
  "parse_line line =
     (let parts = (if CHR '','' \<in> set line then map strip (split_on CHR '','' line)
                   else split_ws line)
      in filter (\<lambda>p. p \<noteq> []) parts)"

definition parse_rows :: "string \<Rightarrow> string list list" where
  "parse_rows txt = map parse_line (filter (\<lambda>l. l \<noteq> []) (map strip (splitlines txt)))"

type_synonym path = string

definition read_text :: "(path \<rightharpoonup> string) \<Rightarrow> path \<Rightarrow> error + string" where
  "read_text fs p = (case fs p of None \<Rightarrow> Inl OSError | Some t \<Rightarrow> Inr t)"

definition parse_board_from_txt :: "(path \<rightharpoonup> string) \<Rightarrow> path \<Rightarrow> error + string list list" where
  "parse_board_from_txt fs txt_path =
     (case read_text fs txt_path of
        Inl e \<Rightarrow> Inl e
      | Inr txt \<Rightarrow>
          (let rows = parse_rows txt
           in if length (remdups (map length rows)) \<noteq> 1 then Inl (ValueError msg_row_lengths)
              else Inr rows))"

section \<open>Size and regions of a puzzle (solver.py)\<close>

text \<open>A puzzle is a list of rows of labels here, so of the two branches of
  \<open>get_puzzle_size\<close> only the one for a matrix applies: the size is the number of rows.\<close>

definition get_puzzle_size :: "'a list list \<Rightarrow> nat" where
  "get_puzzle_size puzzle = length puzzle"

text \<open>
  The dictionary \<open>regions\<close> is an association list in insertion order, because
  \<open>solve_puzzle\<close> later walks \<open>regions.values()\<close> in that order. \<open>add_cell\<close> is the body of
  the inner loop: a label not seen yet gets a new, last entry; the cell is appended to
  the entry of its label.
\<close>

definition add_cell :: "'a \<Rightarrow> nat \<times> nat \<Rightarrow> ('a \<times> (nat \<times> nat) list) list \<Rightarrow> ('a \<times> (nat \<times> nat) list) list" where
  "add_cell val rc regions =
     (let regions' = (if val \<notin> fst ` set regions then regions @ [(val, [])] else regions)
      in map (\<lambda>(k, cells). if k = val then (k, cells @ [rc]) else (k, cells)) regions')"

definition get_puzzle_regions :: "'a list list \<Rightarrow> ('a \<times> (nat \<times> nat) list) list" where
  "get_puzzle_regions puzzle_matrix =
     fold (\<lambda>(r, row) regions. fold (\<lambda>(c, val). add_cell val (r, c)) (enumerate 0 row) regions)
          (enumerate 0 puzzle_matrix) []"

section \<open>The constraint model handed to the solving library\<close>

text \<open>
  \<open>solve_puzzle\<close> declares \<open>n\<close> integer variables \<open>queen_col\<close> with domain \<open>0..n-1\<close> and an
  \<open>n \<times> n\<close> matrix of Boolean variables, \<open>cell_has_queen[r][c]\<close> being reified with
  \<open>queen_col[r] = c\<close>. The Boolean variables are thereby functions of \<open>queen_col\<close>, so an
  assignment is the list of the values of \<open>queen_col\<close>, and a sum over Boolean variables
  is a sum over the cells \<open>(r, c)\<close> they stand for. Variables are named by their index.
\<close>

datatype constraint =
    AllDifferent "nat list"
  | DistanceGt nat nat int
  | SumEq "(nat \<times> nat) list" int

record model =
  num_vars :: nat
  dom_lb :: int
  dom_ub :: int
  posted :: "constraint list"

fun holds :: "int list \<Rightarrow> constraint \<Rightarrow> bool" where
  "holds q (AllDifferent vs) = distinct (map (\<lambda>i. q ! i) vs)"
| "holds q (DistanceGt i j k) = (\<bar>q ! i - q ! j\<bar> > k)"
| "holds q (SumEq cells k) = ((\<Sum>(r, c)\<leftarrow>cells. if q ! r = int c then 1 else 0) = k)"

definition is_solution :: "model \<Rightarrow> int list \<Rightarrow> bool" where
  "is_solution m q \<longleftrightarrow>
     length q = num_vars m \<and> (\<forall>x\<in>set q. dom_lb m \<le> x \<and> x \<le> dom_ub m) \<and>
     (\<forall>c\<in>set (posted m). holds q c)"

text \<open>
  Rule 3 indexes \<open>cell_has_queen[r][c]\<close> for every cell of every region; an index outside
  the \<open>n \<times> n\<close> matrix raises.
\<close>

fun post_region_sums :: "nat \<Rightarrow> (nat \<times> nat) list list \<Rightarrow> error + constraint list" where
  "post_region_sums n [] = Inr []"
| "post_region_sums n (region_cells # rest) =
     (if \<exists>(r, c)\<in>set region_cells. \<not> (r < n \<and> c < n) then Inl IndexError
      else (case post_region_sums n rest of
              Inl e \<Rightarrow> Inl e
            | Inr cs \<Rightarrow> Inr (SumEq region_cells 1 # cs)))"

text \<open>Rule 2: one distance constraint between the columns of each pair of consecutive
  rows.\<close>

definition adjacency_constraints :: "nat \<Rightarrow> constraint list" where
  "adjacency_constraints n = map (\<lambda>i. DistanceGt i (i + 1) 1) [0..<n - 1]"

text \<open>
  The model as \<open>solve_puzzle\<close> builds it. The first call into the library,
  \<open>model.intvars(n, 0, n-1)\<close>, does not come back when \<open>n = 0\<close>; otherwise the three
  rules are posted in the order of the source.
\<close>

definition build_model :: "'a list list \<Rightarrow> error + model" where
  "build_model puzzle =
     (let n = get_puzzle_size puzzle;
          regions = get_puzzle_regions puzzle
      in if n = 0 then Inl LibraryAbort
         else case post_region_sums n (map snd regions) of
           Inl e \<Rightarrow> Inl e
         | Inr sums \<Rightarrow>
             Inr \<lparr> num_vars = n, dom_lb = 0, dom_ub = int n - 1,
                   posted = AllDifferent [0..<n]
                            # adjacency_constraints n
                            @ sums \<rparr>)"

section \<open>The solving library as a parameter\<close>

text \<open>
  The search itself is not in the repository: \<open>solver.solve()\<close> belongs to the constraint
  library. It is a parameter here. \<open>solve_seq slv m k\<close> is what the call number \<open>k\<close> of
  \<open>solve()\<close> on the solver of model \<open>m\<close> finds: \<open>Some q\<close> when it returns true and leaves
  the variables at \<open>q\<close>, \<open>None\<close> when it returns false. \<open>value_unsolved slv m r\<close> is what
  \<open>queen_col[r].get_value()\<close> gives after a first \<open>solve()\<close> that returned false: a number,
  or \<open>None\<close> when the library raises.
\<close>

record choco =
  solve_seq :: "model \<Rightarrow> nat \<Rightarrow> int list option"
  value_unsolved :: "model \<Rightarrow> nat \<Rightarrow> int option"

text \<open>The library's contract: successive calls yield every solution of the posted
  constraints exactly once and then return false.\<close>

definition enumerates :: "choco \<Rightarrow> model \<Rightarrow> bool" where
  "enumerates slv m \<longleftrightarrow>
     (\<exists>sols. distinct sols \<and> set sols = {q. is_solution m q} \<and>
        (\<forall>k. solve_seq slv m k = (if k < length sols then Some (sols ! k) else None)))"

section \<open>solve_puzzle\<close>

definition get_value :: "choco \<Rightarrow> model \<Rightarrow> nat \<Rightarrow> error + int" where
  "get_value slv m r =
     (case solve_seq slv m 0 of
        Some q \<Rightarrow> (if r < length q then Inr (q ! r) else Inl NotInstantiated)
      | None \<Rightarrow> (case value_unsolved slv m r of None \<Rightarrow> Inl NotInstantiated | Some v \<Rightarrow> Inr v))"

fun first_solution :: "choco \<Rightarrow> model \<Rightarrow> nat list \<Rightarrow> error + (nat \<times> int) list" where
  "first_solution slv m [] = Inr []"
| "first_solution slv m (r # rs) =
     (case get_value slv m r of
        Inl e \<Rightarrow> Inl e
      | Inr v \<Rightarrow> (case first_solution slv m rs of Inl e \<Rightarrow> Inl e | Inr qs \<Rightarrow> Inr ((r, v) # qs)))"

text \<open>The loop \<open>while solver.solve(): count += 1\<close>, \<open>k\<close> counting the calls of \<open>solve()\<close>
  made so far. It ends when a call returns false; \<open>None\<close> is the loop that never ends.\<close>

partial_function (option) count_other_solutions :: "(nat \<Rightarrow> int list option) \<Rightarrow> nat \<Rightarrow> nat \<Rightarrow> nat option" where
  "count_other_solutions seq k count =
     (case seq k of
        None \<Rightarrow> Some count
      | Some q \<Rightarrow> count_other_solutions seq (Suc k) (count + 1))"

declare count_other_solutions.simps [code]

text \<open>Lines 51 to 96: everything after the puzzle has been obtained.\<close>

definition solve_board :: "choco \<Rightarrow> 'a list list \<Rightarrow> (error + 'a result) option" where
  "solve_board slv puzzle =
     (case build_model puzzle of
        Inl e \<Rightarrow> Some (Inl e)
      | Inr m \<Rightarrow>
          (case first_solution slv m [0..<get_puzzle_size puzzle] of
             Inl e \<Rightarrow> Some (Inl e)
           | Inr qs \<Rightarrow>
               map_option
                 (\<lambda>count. Inr \<lparr> number_of_solutions = count, initial_board = puzzle, queens = qs \<rparr>)
                 (count_other_solutions (solve_seq slv m) 1 1)))"

definition solve_puzzle :: "choco \<Rightarrow> (path \<rightharpoonup> string) \<Rightarrow> path option \<Rightarrow> string list list option \<Rightarrow> (error + string result) option" where
  "solve_puzzle slv fs puzzle_text_path puzzle_matrix =
     (case (puzzle_text_path, puzzle_matrix) of
        (None, None) \<Rightarrow> Some (Inl (ValueError msg_no_input))
      | (_, Some puzzle) \<Rightarrow> solve_board slv puzzle
      | (Some p, None) \<Rightarrow>
          (case parse_board_from_txt fs p of
             Inl e \<Rightarrow> Some (Inl e)
           | Inr puzzle \<Rightarrow> solve_board slv puzzle))"

section \<open>Auxiliary notions for the proofs\<close>

text \<open>The cells of a grid with their labels, in the order the two loops of
  \<open>get_puzzle_regions\<close> visit them, and the cells among them that carry a given label.\<close>

definition labelled_cells :: "'a list list \<Rightarrow> ('a \<times> nat \<times> nat) list" where
  "labelled_cells m =
     concat (map (\<lambda>(r, row). map (\<lambda>(c, v). (v, (r, c))) (enumerate 0 row)) (enumerate 0 m))"

definition region_of :: "('a \<times> nat \<times> nat) list \<Rightarrow> 'a \<Rightarrow> (nat \<times> nat) list" where
  "region_of L v = map snd (filter (\<lambda>x. fst x = v) L)"

text \<open>The loop invariant of \<open>get_puzzle_regions\<close>, \<open>P\<close> being the labelled cells visited
  so far: keys are unique, they are the labels seen, and each entry lists the cells of its
  label in visiting order.\<close>

definition regions_inv :: "('a \<times> nat \<times> nat) list \<Rightarrow> ('a \<times> (nat \<times> nat) list) list \<Rightarrow> bool" where
  "regions_inv P regs \<longleftrightarrow>
     distinct (map fst regs) \<and> fst ` set regs = fst ` set P \<and>
     (\<forall>(v, cells)\<in>set regs. cells = region_of P v)"

text \<open>The Chebyshev distance of two cells, as the specification's glossary has it: the
  larger of the row distance and the column distance.\<close>

definition chebyshev :: "int \<times> int \<Rightarrow> int \<times> int \<Rightarrow> int" where
  "chebyshev a b = max \<bar>fst a - fst b\<bar> \<bar>snd a - snd b\<bar>"

text \<open>The cells of a grid, row by row.\<close>

definition grid_cells :: "'a list list \<Rightarrow> (nat \<times> nat) list" where
  "grid_cells m = concat (map (\<lambda>r. map (\<lambda>c. (r, c)) [0..<length (m ! r)]) [0..<length m])"

text \<open>A valid board is square and not empty.\<close>

definition valid_board :: "'a list list \<Rightarrow> bool" where
  "valid_board b \<longleftrightarrow> 0 < length b \<and> (\<forall>row\<in>set b. length row = length b)"

text \<open>
  The three rule families as the specification words them, for an assignment \<open>q\<close> of a
  column to each row of board \<open>b\<close>: one marker per row and per column; markers of
  consecutive rows more than one column apart; exactly one marker on the cells of each
  label.
\<close>

definition satisfies_rules :: "'a list list \<Rightarrow> int list \<Rightarrow> bool" where
  "satisfies_rules b q \<longleftrightarrow>
     length q = length b \<and> (\<forall>x\<in>set q. 0 \<le> x \<and> x < int (length b)) \<and>
     distinct q \<and>
     (\<forall>r\<in>set [0..<length b - 1]. \<bar>q ! r - q ! (r + 1)\<bar> > 1) \<and>
     (\<forall>v\<in>set (concat b). length (filter (\<lambda>r. b ! r ! nat (q ! r) = v) [0..<length b]) = 1)"

text \<open>
  An instance of the library parameter, used to run the model on concrete boards: it
  tries every assignment over the domain and keeps those that satisfy the posted
  constraints; reading a value when there is no solution raises.
\<close>

definition all_solutions :: "model \<Rightarrow> int list list" where
  "all_solutions m = filter (is_solution m) (List.n_lists (num_vars m) [dom_lb m..dom_ub m])"

definition reference_choco :: choco where
  "reference_choco =
     \<lparr> solve_seq = (\<lambda>m k. if k < length (all_solutions m) then Some (all_solutions m ! k) else None),
       value_unsolved = (\<lambda>m r. None) \<rparr>"

text \<open>A library that raises when a variable is read after a first \<open>solve()\<close> that
  returned false.\<close>

definition raises_unsolved :: "choco \<Rightarrow> bool" where
  "raises_unsolved slv \<longleftrightarrow> (\<forall>m r. value_unsolved slv m r = None)"

text \<open>A library that keeps its contract on every model.\<close>

definition honours_contract :: "choco \<Rightarrow> bool" where
  "honours_contract slv \<longleftrightarrow> (\<forall>m. enumerates slv m)"

text \<open>Boards used to run the model: the 2 by 2 board with the two diagonals as
  regions, which no assignment solves; the 4 by 4 board whose regions are its columns,
  which two assignments solve.\<close>

definition board2 :: "string list list" where
  "board2 = [[''0'', ''1''], [''1'', ''0'']]"

definition board4 :: "string list list" where
  "board4 = replicate 4 [''0'', ''1'', ''2'', ''3'']"

text \<open>A renaming of labels that is one to one on the labels of that board and keeps
  neither their order nor their spelling.\<close>

definition rename :: "string \<Rightarrow> string" where
  "rename s = (if s = ''0'' then ''3'' else if s = ''3'' then ''0'' else CHR ''r'' # s)"

text \<open>Texts used to run the parser: four lines of three labels each, written with
  blanks, with commas and with a carriage return; and two lines of different lengths.\<close>

definition text43 :: string where
  "text43 = ''0 1 2'' @ [CHR 0x0A] @ ''0 1 2'' @ [CHR 0x0A] @ ''0,1,2'' @ [CHR 0x0D, CHR 0x0A]
            @ '' 0 1 2 '' @ [CHR 0x0A]"

definition board43 :: "string list list" where
  "board43 = replicate 4 [''0'', ''1'', ''2'']"

definition text_ragged :: string where
  "text_ragged = ''0 1'' @ [CHR 0x0A] @ ''0''"

text \<open>
  Two properties of a library that are enough for the loop of \<open>solve_puzzle\<close> to end:
  whatever \<open>solve()\<close> finds satisfies the posted constraints, and it never finds the same
  assignment twice. Nothing is asked about \<open>solve()\<close> ever returning false.
\<close>

definition yields_solutions :: "choco \<Rightarrow> model \<Rightarrow> bool" where
  "yields_solutions slv m \<longleftrightarrow> (\<forall>k q. solve_seq slv m k = Some q \<longrightarrow> is_solution m q)"

definition never_repeats :: "choco \<Rightarrow> model \<Rightarrow> bool" where
  "never_repeats slv m \<longleftrightarrow>
     (\<forall>j k q. j < k \<longrightarrow> solve_seq slv m j = Some q \<longrightarrow> solve_seq slv m k \<noteq> Some q)"

section \<open>Lemmas: the regions of a grid\<close>

lemma fold_rows_flat:
  "fold (\<lambda>(r, row) regions. fold (\<lambda>(c, val). add_cell val (r, c)) (enumerate 0 row) regions) xs regs
   = fold (\<lambda>(v, rc). add_cell v rc)
       (concat (map (\<lambda>(r, row). map (\<lambda>(c, v). (v, (r, c))) (enumerate 0 row)) xs)) regs"
proof (induction xs arbitrary: regs)
  case Nil
  then show ?case by simp
next
  case (Cons x xs)
  obtain r row where x: "x = (r, row)" by (cases x)
  have inner: "fold (\<lambda>(c, val). add_cell val (r, c)) ys regs
     = fold (\<lambda>(v, rc). add_cell v rc) (map (\<lambda>(c, v). (v, (r, c))) ys) regs" for ys
    by (simp add: fold_map comp_def case_prod_unfold)
  show ?case by (simp add: x inner Cons.IH)
qed

lemma get_puzzle_regions_flat:
  "get_puzzle_regions m = fold (\<lambda>(v, rc). add_cell v rc) (labelled_cells m) []"
  by (simp add: get_puzzle_regions_def labelled_cells_def fold_rows_flat)

lemma add_cell_keys: "fst ` set (add_cell v rc regs) = insert v (fst ` set regs)"
  by (force simp: add_cell_def Let_def image_iff split: if_splits)

lemma add_cell_map_fst:
  "map fst (add_cell v rc regs) = (if v \<in> fst ` set regs then map fst regs else map fst regs @ [v])"
  by (auto simp: add_cell_def Let_def case_prod_unfold comp_def)

lemma add_cell_inv:
  assumes "regions_inv P regs"
  shows "regions_inv (P @ [(v, rc)]) (add_cell v rc regs)"
proof -
  have d: "distinct (map fst (add_cell v rc regs))"
    using assms by (auto simp: add_cell_map_fst regions_inv_def)
  have k: "fst ` set (add_cell v rc regs) = fst ` set (P @ [(v, rc)])"
    using assms by (auto simp: add_cell_keys regions_inv_def)
  have c: "cells = region_of (P @ [(v, rc)]) w" if "(w, cells) \<in> set (add_cell v rc regs)" for w cells
  proof (cases "v \<in> fst ` set regs")
    case True
    with that obtain cs where cs: "(w, cs) \<in> set regs" "cells = (if w = v then cs @ [rc] else cs)"
      by (auto simp: add_cell_def Let_def split: if_splits)
    then have "cs = region_of P w" using assms by (auto simp: regions_inv_def)
    then show ?thesis using cs by (auto simp: region_of_def)
  next
    case False
    then have nv: "region_of P v = []"
      using assms by (auto simp: regions_inv_def region_of_def filter_empty_conv image_iff)
    from that False consider "w = v" "cells = [rc]" | cs where "(w, cs) \<in> set regs" "w \<noteq> v" "cells = cs"
      by (auto simp: add_cell_def Let_def image_iff split: if_splits)
    then show ?thesis
    proof cases
      case 1
      then show ?thesis using nv by (simp add: region_of_def)
    next
      case 2
      then have "cs = region_of P w" using assms by (auto simp: regions_inv_def)
      then show ?thesis using 2 by (auto simp: region_of_def)
    qed
  qed
  show ?thesis unfolding regions_inv_def using d k c by blast
qed

lemma fold_add_cell_inv:
  "regions_inv P regs \<Longrightarrow> regions_inv (P @ L) (fold (\<lambda>(v, rc). add_cell v rc) L regs)"
proof (induction L arbitrary: P regs)
  case Nil
  then show ?case by simp
next
  case (Cons x L)
  obtain v rc where x: "x = (v, rc)" by (cases x)
  have "regions_inv ((P @ [(v, rc)]) @ L) (fold (\<lambda>(v, rc). add_cell v rc) L (add_cell v rc regs))"
    by (rule Cons.IH) (rule add_cell_inv[OF Cons.prems])
  then show ?case by (simp add: x)
qed

lemma get_puzzle_regions_inv: "regions_inv (labelled_cells m) (get_puzzle_regions m)"
  using fold_add_cell_inv[of "[]" "[]" "labelled_cells m"]
  by (simp add: get_puzzle_regions_flat regions_inv_def)

lemma map_enumerate_nth:
  "map f (enumerate 0 xs) = map (\<lambda>i. f (i, xs ! i)) [0..<length xs]"
  by (rule nth_equalityI) (simp_all add: nth_enumerate_eq)

lemma labelled_cells_nth:
  "labelled_cells b =
     concat (map (\<lambda>r. map (\<lambda>c. (b ! r ! c, (r, c))) [0..<length (b ! r)]) [0..<length b])"
  by (simp add: labelled_cells_def map_enumerate_nth)

lemma set_labelled_cells:
  "set (labelled_cells b) = {(v, (r, c)). r < length b \<and> c < length (b ! r) \<and> v = b ! r ! c}"
  by (auto simp: labelled_cells_nth)

lemma labels_labelled_cells: "fst ` set (labelled_cells b) = set (concat b)"
proof -
  have "fst ` set (labelled_cells b) = {b ! r ! c | r c. r < length b \<and> c < length (b ! r)}"
    by (force simp: set_labelled_cells image_iff)
  also have "\<dots> = set (concat b)"
    by (auto simp: in_set_conv_nth) (metis nth_mem)+
  finally show ?thesis .
qed

lemma sum_list_delta:
  "(\<Sum>c\<leftarrow>[0..<n]. if P c \<and> k = int c then (1::int) else 0) = (if 0 \<le> k \<and> nat k < n \<and> P (nat k) then 1 else 0)"
proof -
  have "(\<Sum>c\<leftarrow>[0..<n]. if P c \<and> k = int c then (1::int) else 0)
        = (\<Sum>c\<in>{0..<n}. if c = nat k then (if P c \<and> 0 \<le> k then 1 else 0) else 0)"
    unfolding interv_sum_list_conv_sum_set_nat by (intro sum.cong) auto
  also have "\<dots> = (if 0 \<le> k \<and> nat k < n \<and> P (nat k) then 1 else 0)"
    by (simp add: sum.delta)
  finally show ?thesis .
qed

lemma sum_list_concat_map:
  "sum_list (map f (concat xss)) = (\<Sum>xs\<leftarrow>xss. sum_list (map f xs))"
  by (induction xss) auto

lemma sum_list_indicator: "(\<Sum>x\<leftarrow>xs. if P x then (1::int) else 0) = int (length (filter P xs))"
  by (induction xs) auto

lemma region_sum:
  assumes "length q = length b" "\<forall>x\<in>set q. 0 \<le> x \<and> x < int (length b)"
    and "\<forall>row\<in>set b. length row = length b"
  shows "(\<Sum>(r, c)\<leftarrow>region_of (labelled_cells b) v. if q ! r = int c then 1 else 0)
         = int (length (filter (\<lambda>r. b ! r ! nat (q ! r) = v) [0..<length b]))"
proof -
  let ?n = "length b"
  have "(\<Sum>(r, c)\<leftarrow>region_of (labelled_cells b) v. if q ! r = int c then (1::int) else 0)
      = (\<Sum>x\<leftarrow>labelled_cells b. if fst x = v then (case snd x of (r, c) \<Rightarrow> if q ! r = int c then 1 else 0) else 0)"
    by (simp add: region_of_def sum_list_map_filter' comp_def)
  also have "\<dots> = (\<Sum>r\<leftarrow>[0..<?n]. \<Sum>c\<leftarrow>[0..<length (b ! r)]. if b ! r ! c = v \<and> q ! r = int c then 1 else 0)"
    by (simp add: labelled_cells_nth sum_list_concat_map comp_def cong del: if_weak_cong)
       (auto intro!: arg_cong[where f = sum_list] map_cong)
  also have "\<dots> = (\<Sum>r\<leftarrow>[0..<?n]. if b ! r ! nat (q ! r) = v then 1 else 0)"
  proof (rule arg_cong[where f = sum_list], rule map_cong[OF refl])
    fix r assume "r \<in> set [0..<?n]"
    then have r: "r < ?n" by simp
    then have len: "length (b ! r) = ?n" using assms(3) by simp
    have qr: "0 \<le> q ! r \<and> nat (q ! r) < ?n" using assms(1,2) r by (metis nat_less_iff nth_mem)
    show "(\<Sum>c\<leftarrow>[0..<length (b ! r)]. if b ! r ! c = v \<and> q ! r = int c then (1::int) else 0)
          = (if b ! r ! nat (q ! r) = v then 1 else 0)"
      using qr by (simp add: len sum_list_delta)
  qed
  also have "\<dots> = int (length (filter (\<lambda>r. b ! r ! nat (q ! r) = v) [0..<?n]))"
    by (rule sum_list_indicator)
  finally show ?thesis .
qed

lemma post_region_sums_ok:
  "\<forall>cells\<in>set css. \<forall>(r, c)\<in>set cells. r < n \<and> c < n \<Longrightarrow>
   post_region_sums n css = Inr (map (\<lambda>cells. SumEq cells 1) css)"
  by (induction css) auto

lemma regions_cells_in_grid:
  assumes "(v, cells) \<in> set (get_puzzle_regions b)" "(r, c) \<in> set cells"
  shows "r < length b \<and> c < length (b ! r) \<and> b ! r ! c = v"
proof -
  have "cells = region_of (labelled_cells b) v"
    using get_puzzle_regions_inv[of b] assms(1) by (auto simp: regions_inv_def)
  then have "(v, (r, c)) \<in> set (labelled_cells b)"
    using assms(2) by (auto simp: region_of_def)
  then show ?thesis by (simp add: set_labelled_cells)
qed

lemma build_model_valid:
  assumes "valid_board b"
  shows "build_model b = Inr \<lparr> num_vars = length b, dom_lb = 0, dom_ub = int (length b) - 1,
           posted = AllDifferent [0..<length b]
                    # adjacency_constraints (length b)
                    @ map (\<lambda>cells. SumEq cells 1) (map snd (get_puzzle_regions b)) \<rparr>"
proof -
  have "\<forall>cells\<in>set (map snd (get_puzzle_regions b)). \<forall>(r, c)\<in>set cells. r < length b \<and> c < length b"
    using regions_cells_in_grid[of _ _ b] assms
    by (fastforce simp: valid_board_def)
  moreover have "length b \<noteq> 0" using assms by (simp add: valid_board_def)
  ultimately show ?thesis
    using post_region_sums_ok[of "map snd (get_puzzle_regions b)" "length b"]
    by (simp add: build_model_def get_puzzle_size_def Let_def)
qed

lemma is_solution_iff_rules:
  assumes "valid_board b" "build_model b = Inr m"
  shows "is_solution m q \<longleftrightarrow> satisfies_rules b q"
proof (cases "length q = length b \<and> (\<forall>x\<in>set q. 0 \<le> x \<and> x < int (length b))")
  case False
  then show ?thesis using assms build_model_valid[OF assms(1)]
    by (auto simp: is_solution_def satisfies_rules_def)
next
  case True
  let ?n = "length b"
  have m: "m = \<lparr> num_vars = ?n, dom_lb = 0, dom_ub = int ?n - 1,
           posted = AllDifferent [0..<?n]
                    # adjacency_constraints ?n
                    @ map (\<lambda>cells. SumEq cells 1) (map snd (get_puzzle_regions b)) \<rparr>"
    using assms build_model_valid[OF assms(1)] by simp
  have sq: "\<forall>row\<in>set b. length row = ?n" using assms(1) by (simp add: valid_board_def)
  have inv: "regions_inv (labelled_cells b) (get_puzzle_regions b)" by (rule get_puzzle_regions_inv)
  have sums: "(\<forall>cells\<in>set (map snd (get_puzzle_regions b)). holds q (SumEq cells 1))
       \<longleftrightarrow> (\<forall>v\<in>set (concat b). length (filter (\<lambda>r. b ! r ! nat (q ! r) = v) [0..<?n]) = 1)"
    (is "?L \<longleftrightarrow> ?R")
  proof
    assume L: ?L
    show ?R
    proof
      fix v assume "v \<in> set (concat b)"
      then have "v \<in> fst ` set (get_puzzle_regions b)"
        using inv by (simp add: regions_inv_def labels_labelled_cells)
      then obtain cells where vc: "(v, cells) \<in> set (get_puzzle_regions b)" by auto
      then have "cells = region_of (labelled_cells b) v" using inv by (auto simp: regions_inv_def)
      moreover have "holds q (SumEq cells 1)" using L vc by force
      ultimately show "length (filter (\<lambda>r. b ! r ! nat (q ! r) = v) [0..<?n]) = 1"
        using region_sum[of q b v] True sq by simp
    qed
  next
    assume R: ?R
    show ?L
    proof
      fix cells assume "cells \<in> set (map snd (get_puzzle_regions b))"
      then obtain v where vc: "(v, cells) \<in> set (get_puzzle_regions b)" by auto
      then have c: "cells = region_of (labelled_cells b) v" using inv by (auto simp: regions_inv_def)
      have "v \<in> fst ` set (get_puzzle_regions b)" using vc by force
      then have "v \<in> set (concat b)" using inv by (simp add: regions_inv_def labels_labelled_cells)
      then have "length (filter (\<lambda>r. b ! r ! nat (q ! r) = v) [0..<?n]) = 1" using R by blast
      then show "holds q (SumEq cells 1)"
        using region_sum[of q b v] True sq c by simp
    qed
  qed
  have ad: "holds q (AllDifferent [0..<?n]) \<longleftrightarrow> distinct q"
    using map_nth[of q] True by simp
  have dist: "(\<forall>c\<in>set (adjacency_constraints ?n). holds q c)
      \<longleftrightarrow> (\<forall>r\<in>set [0..<?n - 1]. \<bar>q ! r - q ! (r + 1)\<bar> > 1)"
    by (auto simp: adjacency_constraints_def)
  have "is_solution m q \<longleftrightarrow> holds q (AllDifferent [0..<?n])
      \<and> (\<forall>c\<in>set (adjacency_constraints ?n). holds q c)
      \<and> (\<forall>cells\<in>set (map snd (get_puzzle_regions b)). holds q (SumEq cells 1))"
    using True by (simp add: is_solution_def m ball_Un del: holds.simps)
  then show ?thesis
    unfolding ad dist sums using True by (auto simp: satisfies_rules_def)
qed

lemma grid_cells_labelled: "map snd (labelled_cells m) = grid_cells m"
  by (simp add: labelled_cells_nth grid_cells_def map_concat comp_def)

lemma region_of_filter:
  "region_of (labelled_cells m) v = filter (\<lambda>(r, c). m ! r ! c = v) (grid_cells m)"
proof -
  have "map snd (filter (\<lambda>x. fst x = v) (labelled_cells m))
      = filter (\<lambda>(r, c). m ! r ! c = v) (map snd (labelled_cells m))"
    unfolding filter_map comp_def
    by (rule arg_cong[where f = "map snd"], rule filter_cong) (auto simp: set_labelled_cells)
  then show ?thesis by (simp add: region_of_def grid_cells_labelled)
qed

lemma distinct_concat_regions:
  assumes "distinct (map fst regs)"
    and "\<forall>(v, cells)\<in>set regs. distinct cells \<and> (\<forall>x\<in>set cells. lab x = v)"
  shows "distinct (concat (map snd regs))"
  using assms
proof (induction regs)
  case Nil
  then show ?case by simp
next
  case (Cons a regs)
  obtain v cells where a: "a = (v, cells)" by (cases a)
  have v: "v \<notin> fst ` set regs" and d: "distinct (map fst regs)"
    using Cons.prems(1) a by auto
  have c: "distinct cells" and lv: "\<forall>x\<in>set cells. lab x = v"
    using Cons.prems(2) a by auto
  have rest: "\<forall>(v, cells)\<in>set regs. distinct cells \<and> (\<forall>x\<in>set cells. lab x = v)"
    using Cons.prems(2) by simp
  have "x \<notin> set (concat (map snd regs))" if "x \<in> set cells" for x
  proof
    assume "x \<in> set (concat (map snd regs))"
    then obtain w ds where wd: "(w, ds) \<in> set regs" "x \<in> set ds" by auto
    then have "lab x = w" using rest by blast
    moreover have "lab x = v" using lv that by blast
    ultimately have "(v, ds) \<in> set regs" using wd(1) by simp
    then show False using v by force
  qed
  then have "set cells \<inter> set (concat (map snd regs)) = {}" by blast
  then show ?case using c Cons.IH[OF d rest] by (simp add: a)
qed

lemma distinct_grid_cells: "distinct (grid_cells m)"
proof -
  let ?regs = "map (\<lambda>r. (r, map (\<lambda>c. (r, c)) [0..<length (m ! r)])) [0..<length m]"
  have "distinct (concat (map snd ?regs))"
  proof (rule distinct_concat_regions[where lab = fst])
    show "distinct (map fst ?regs)" by (simp add: comp_def)
    show "\<forall>(v, cells)\<in>set ?regs. distinct cells \<and> (\<forall>x\<in>set cells. fst x = v)"
      by (auto simp: distinct_map inj_on_def)
  qed
  then show ?thesis by (simp add: grid_cells_def comp_def)
qed

lemma set_grid_cells_valid:
  "valid_board m \<Longrightarrow> set (grid_cells m) = {0..<length m} \<times> {0..<length m}"
  by (auto simp: grid_cells_def valid_board_def)

section \<open>Lemmas: the reference solver and the counting loop\<close>

lemma set_all_solutions: "set (all_solutions m) = {q. is_solution m q}"
  by (auto simp: all_solutions_def set_n_lists is_solution_def)

lemma distinct_all_solutions: "distinct (all_solutions m)"
  by (simp add: all_solutions_def distinct_n_lists)

lemma reference_enumerates: "enumerates reference_choco m"
  unfolding enumerates_def
  by (rule exI[of _ "all_solutions m"]) (simp add: set_all_solutions distinct_all_solutions reference_choco_def)

lemma count_other_solutions_list:
  assumes "\<forall>k. seq k = (if k < length sols then Some (sols ! k) else None)"
  shows "k \<le> length sols \<Longrightarrow> count_other_solutions seq k c = Some (c + (length sols - k))"
proof (induction "length sols - k" arbitrary: k c)
  case 0
  then have "seq k = None" using assms by simp
  then show ?case using 0 by (subst count_other_solutions.simps) simp
next
  case (Suc d)
  then have k: "k < length sols" by simp
  then have "seq k = Some (sols ! k)" using assms by simp
  moreover have "count_other_solutions seq (Suc k) (c + 1) = Some (c + 1 + (length sols - Suc k))"
    using Suc k by (intro Suc.hyps) auto
  ultimately show ?case using k by (subst count_other_solutions.simps) simp
qed

section \<open>Lemmas: what solve_board returns\<close>

lemma first_solution_fst: "first_solution slv m rs = Inr qs \<Longrightarrow> map fst qs = rs"
  by (induction rs arbitrary: qs) (auto split: sum.splits)

lemma first_solution_error: "first_solution slv m rs = Inl e \<Longrightarrow> e = NotInstantiated"
  by (induction rs) (auto simp: get_value_def split: sum.splits option.splits if_splits)

lemma first_solution_found:
  assumes "solve_seq slv m 0 = Some q" "\<forall>r\<in>set rs. r < length q"
  shows "first_solution slv m rs = Inr (map (\<lambda>r. (r, q ! r)) rs)"
  using assms(2) by (induction rs) (auto simp: get_value_def assms(1))

lemma solve_board_found:
  assumes "build_model b = Inr m"
    and "distinct sols" "set sols = {q. is_solution m q}"
    and "\<forall>k. solve_seq slv m k = (if k < length sols then Some (sols ! k) else None)"
    and "sols \<noteq> []"
  shows "solve_board slv b = Some (Inr \<lparr> number_of_solutions = length sols, initial_board = b,
           queens = map (\<lambda>r. (r, hd sols ! r)) [0..<length b] \<rparr>)"
proof -
  have s0: "solve_seq slv m 0 = Some (hd sols)"
    using assms(4,5) by (simp add: hd_conv_nth)
  have "is_solution m (hd sols)" using assms(3,5) by (metis hd_in_set mem_Collect_eq)
  moreover have "num_vars m = length b"
    using assms(1) by (auto simp: build_model_def Let_def get_puzzle_size_def split: sum.splits if_splits)
  ultimately have len: "length (hd sols) = length b" by (simp add: is_solution_def)
  have fs: "first_solution slv m [0..<length b] = Inr (map (\<lambda>r. (r, hd sols ! r)) [0..<length b])"
    by (rule first_solution_found[OF s0]) (simp add: len)
  have l1: "Suc 0 \<le> length sols" using assms(5) by (cases sols) auto
  have cnt: "count_other_solutions (solve_seq slv m) (Suc 0) (Suc 0) = Some (length sols)"
  proof -
    have "Suc 0 + (length sols - Suc 0) = length sols" using l1 by arith
    then show ?thesis
      using count_other_solutions_list[OF assms(4) l1, where c = "Suc 0"] by simp
  qed
  show ?thesis
    by (simp add: solve_board_def assms(1) get_puzzle_size_def fs cnt)
qed

lemma solve_board_none:
  assumes "build_model b = Inr m"
    and "\<forall>k. solve_seq slv m k = None"
  shows "solve_board slv b = Some (Inl NotInstantiated) \<or>
         (\<exists>qs. map fst qs = [0..<length b] \<and>
            solve_board slv b = Some (Inr \<lparr> number_of_solutions = 1, initial_board = b, queens = qs \<rparr>))"
proof (cases "first_solution slv m [0..<length b]")
  case (Inl e)
  then show ?thesis
    using first_solution_error[OF Inl] by (simp add: solve_board_def assms(1) get_puzzle_size_def)
next
  case (Inr qs)
  have "count_other_solutions (solve_seq slv m) (Suc 0) (Suc 0) = Some (Suc 0)"
    by (subst count_other_solutions.simps) (simp add: assms(2))
  then show ?thesis
    using first_solution_fst[OF Inr] Inr by (simp add: solve_board_def assms(1) get_puzzle_size_def)
qed

lemma enumerates_cases:
  assumes "enumerates slv m"
  obtains sols where "distinct sols" "set sols = {q. is_solution m q}"
    "\<forall>k. solve_seq slv m k = (if k < length sols then Some (sols ! k) else None)"
  using assms unfolding enumerates_def by blast

lemma solve_puzzle_matrix: "solve_puzzle slv fs p (Some b) = solve_board slv b"
  by (cases p) (simp_all add: solve_puzzle_def)

lemma reference_honours: "honours_contract reference_choco"
  by (simp add: honours_contract_def reference_enumerates)


lemma valid_board2: "valid_board board2" by (simp add: valid_board_def board2_def)
lemma valid_board4: "valid_board board4" by (simp add: valid_board_def board4_def)

lemma rules_all_solutions:
  assumes "valid_board b" "build_model b = Inr m"
  shows "{q. satisfies_rules b q} = set (all_solutions m)"
  using is_solution_iff_rules[OF assms] by (auto simp: set_all_solutions)

lemma board2_model: "build_model board2 = Inr \<lparr> num_vars = 2, dom_lb = 0, dom_ub = 1,
   posted = [AllDifferent [0, 1], DistanceGt 0 1 1, SumEq [(0, 0), (1, 1)] 1, SumEq [(0, 1), (1, 0)] 1] \<rparr>"
  by code_simp

lemma board2_unsolvable: "\<forall>q. \<not> satisfies_rules board2 q"
proof -
  have "all_solutions \<lparr> num_vars = 2, dom_lb = 0, dom_ub = 1,
   posted = [AllDifferent [0, 1], DistanceGt 0 1 1, SumEq [(0, 0), (1, 1)] 1, SumEq [(0, 1), (1, 0)] 1] \<rparr> = []"
    by code_simp
  then show ?thesis using rules_all_solutions[OF valid_board2 board2_model] by auto
qed

section \<open>Lemmas: renaming the labels\<close>

lemma add_cell_relabel:
  assumes "inj_on f (insert v (fst ` set regs))"
  shows "add_cell (f v) rc (map (apfst f) regs) = map (apfst f) (add_cell v rc regs)"
proof -
  have mem: "f v \<in> fst ` set (map (apfst f) regs) \<longleftrightarrow> v \<in> fst ` set regs"
    using assms by (force simp: inj_on_def image_iff)
  have eq: "f k = f v \<longleftrightarrow> k = v" if "k \<in> fst ` set regs" for k
    using assms that by (auto simp: inj_on_def)
  have upd: "map (\<lambda>(k, cells). if k = f v then (k, cells @ [rc]) else (k, cells)) (map (apfst f) xs)
        = map (apfst f) (map (\<lambda>(k, cells). if k = v then (k, cells @ [rc]) else (k, cells)) xs)"
    if "fst ` set xs \<subseteq> insert v (fst ` set regs)" for xs
    using that
  proof (induction xs)
    case Nil
    then show ?case by simp
  next
    case (Cons x xs)
    obtain k cs where x: "x = (k, cs)" by (cases x)
    have "k = v \<or> k \<in> fst ` set regs" using Cons.prems x by auto
    then have "f k = f v \<longleftrightarrow> k = v" using eq by auto
    then show ?case using Cons x by auto
  qed
  show ?thesis
  proof (cases "v \<in> fst ` set regs")
    case True
    have "add_cell (f v) rc (map (apfst f) regs)
        = map (\<lambda>(k, cells). if k = f v then (k, cells @ [rc]) else (k, cells)) (map (apfst f) regs)"
      using mem True by (simp add: add_cell_def)
    also have "\<dots> = map (apfst f) (map (\<lambda>(k, cells). if k = v then (k, cells @ [rc]) else (k, cells)) regs)"
      by (rule upd) blast
    also have "\<dots> = map (apfst f) (add_cell v rc regs)"
      using True by (simp add: add_cell_def)
    finally show ?thesis .
  next
    case False
    have "add_cell (f v) rc (map (apfst f) regs)
        = map (\<lambda>(k, cells). if k = f v then (k, cells @ [rc]) else (k, cells))
            (map (apfst f) (regs @ [(v, [])]))"
      using mem False by (simp add: add_cell_def)
    also have "\<dots> = map (apfst f)
           (map (\<lambda>(k, cells). if k = v then (k, cells @ [rc]) else (k, cells)) (regs @ [(v, [])]))"
      by (rule upd) auto
    also have "\<dots> = map (apfst f) (add_cell v rc regs)"
      using False by (simp add: add_cell_def)
    finally show ?thesis .
  qed
qed

lemma fold_add_cell_relabel:
  "inj_on f (fst ` set L \<union> fst ` set regs) \<Longrightarrow>
   fold (\<lambda>(v, rc). add_cell v rc) (map (apfst f) L) (map (apfst f) regs)
     = map (apfst f) (fold (\<lambda>(v, rc). add_cell v rc) L regs)"
proof (induction L arbitrary: regs)
  case Nil
  then show ?case by simp
next
  case (Cons x L)
  obtain v rc where x: "x = (v, rc)" by (cases x)
  have 1: "inj_on f (insert v (fst ` set regs))"
    using Cons.prems x by (auto intro: inj_on_subset)
  have 2: "inj_on f (fst ` set L \<union> fst ` set (add_cell v rc regs))"
    using Cons.prems x by (auto simp: add_cell_keys intro: inj_on_subset)
  show ?case
    using Cons.IH[OF 2] add_cell_relabel[OF 1] by (simp add: x)
qed

lemma labelled_cells_relabel:
  "labelled_cells (map (map f) b) = map (apfst f) (labelled_cells b)"
proof -
  have "map (\<lambda>r. map (\<lambda>c. (map (map f) b ! r ! c, r, c)) [0..<length (map (map f) b ! r)]) [0..<length b]
      = map (\<lambda>r. map (\<lambda>c. (f (b ! r ! c), r, c)) [0..<length (b ! r)]) [0..<length b]"
    by (rule map_cong[OF refl]) simp
  then have "labelled_cells (map (map f) b)
      = concat (map (\<lambda>r. map (\<lambda>c. (f (b ! r ! c), r, c)) [0..<length (b ! r)]) [0..<length b])"
    by (simp only: labelled_cells_nth length_map)
  also have "\<dots> = map (apfst f) (labelled_cells b)"
    by (simp add: labelled_cells_nth map_concat comp_def)
  finally show ?thesis .
qed

lemma get_puzzle_regions_relabel:
  assumes "inj_on f (set (concat b))"
  shows "get_puzzle_regions (map (map f) b) = map (apfst f) (get_puzzle_regions b)"
proof -
  have "inj_on f (fst ` set (labelled_cells b) \<union> fst ` set [])"
    using assms by (simp add: labels_labelled_cells)
  from fold_add_cell_relabel[OF this] show ?thesis
    by (simp add: get_puzzle_regions_flat labelled_cells_relabel)
qed

lemma build_model_relabel:
  assumes "inj_on f (set (concat b))"
  shows "build_model (map (map f) b) = build_model b"
proof -
  have e: "map snd (get_puzzle_regions (map (map f) b)) = map snd (get_puzzle_regions b)"
    by (simp add: get_puzzle_regions_relabel[OF assms] comp_def)
  show ?thesis
    unfolding build_model_def get_puzzle_size_def Let_def e length_map by (rule refl)
qed

section \<open>Lemmas: the parser\<close>

lemma remdups_lengths_one:
  "length (remdups (map length rows)) \<noteq> 1 \<longleftrightarrow>
     rows = [] \<or> (\<exists>r\<in>set rows. length r \<noteq> length (hd rows))"
proof -
  have "length (remdups (map length rows)) = card (length ` set rows)"
    by (simp add: length_remdups_card_conv)
  moreover have "card (length ` set rows) = 1 \<longleftrightarrow> rows \<noteq> [] \<and> (\<forall>r\<in>set rows. length r = length (hd rows))"
  proof
    assume "card (length ` set rows) = 1"
    then obtain k where k: "length ` set rows = {k}" by (auto simp: card_1_singleton_iff)
    then have ne: "rows \<noteq> []" by auto
    then have "length (hd rows) = k" using k by (metis hd_in_set imageI singletonD)
    then show "rows \<noteq> [] \<and> (\<forall>r\<in>set rows. length r = length (hd rows))" using k ne by auto
  next
    assume a: "rows \<noteq> [] \<and> (\<forall>r\<in>set rows. length r = length (hd rows))"
    then have "length ` set rows = {length (hd rows)}" by (cases rows) auto
    then show "card (length ` set rows) = 1" by simp
  qed
  ultimately show ?thesis by auto
qed

lemma parse_board_rejects:
  assumes "fs p = Some txt"
    and "parse_rows txt = [] \<or> (\<exists>r\<in>set (parse_rows txt). length r \<noteq> length (hd (parse_rows txt)))"
  shows "parse_board_from_txt fs p = Inl (ValueError msg_row_lengths)"
proof -
  have "length (remdups (map length (parse_rows txt))) \<noteq> 1"
    using assms(2) remdups_lengths_one[of "parse_rows txt"] by blast
  then show ?thesis
    by (simp add: parse_board_from_txt_def read_text_def assms(1) Let_def)
qed

lemma parse_board_accepts:
  assumes "fs p = Some txt"
    and "\<not> (parse_rows txt = [] \<or> (\<exists>r\<in>set (parse_rows txt). length r \<noteq> length (hd (parse_rows txt))))"
  shows "parse_board_from_txt fs p = Inr (parse_rows txt)"
proof -
  have "\<not> length (remdups (map length (parse_rows txt))) \<noteq> 1"
    using assms(2) remdups_lengths_one[of "parse_rows txt"] by blast
  then show ?thesis
    by (simp add: parse_board_from_txt_def read_text_def assms(1) Let_def)
qed

lemma solve_puzzle_path:
  "solve_puzzle slv fs (Some p) None =
     (case parse_board_from_txt fs p of Inl e \<Rightarrow> Some (Inl e) | Inr puzzle \<Rightarrow> solve_board slv puzzle)"
  by (simp add: solve_puzzle_def)

section \<open>Lemmas: the counting loop ends\<close>

lemma solutions_bounded:
  "finite {q. is_solution m q} \<and>
   card {q. is_solution m q} \<le> card {dom_lb m..dom_ub m} ^ num_vars m"
proof -
  let ?A = "{q. set q \<subseteq> {dom_lb m..dom_ub m} \<and> length q = num_vars m}"
  have sub: "{q. is_solution m q} \<subseteq> ?A"
  proof
    fix q assume "q \<in> {q. is_solution m q}"
    then have "length q = num_vars m" "\<forall>x\<in>set q. dom_lb m \<le> x \<and> x \<le> dom_ub m"
      unfolding is_solution_def by blast+
    then show "q \<in> ?A" by auto
  qed
  have fin: "finite ?A" by (rule finite_lists_length_eq) simp
  have card: "card ?A = card {dom_lb m..dom_ub m} ^ num_vars m"
    by (rule card_lists_length_eq) simp
  have "finite {q. is_solution m q}" using sub fin by (rule finite_subset)
  moreover have "card {q. is_solution m q} \<le> card ?A" using fin sub by (rule card_mono)
  ultimately show ?thesis using card by simp
qed

lemma build_model_domain:
  assumes "build_model b = Inr m"
  shows "num_vars m = length b \<and> card {dom_lb m..dom_ub m} = length b"
  using assms by (auto simp: build_model_def Let_def get_puzzle_size_def split: sum.splits if_splits)

lemma reference_yields: "yields_solutions reference_choco m"
  using set_all_solutions[of m] by (auto simp: yields_solutions_def reference_choco_def split: if_splits)

lemma reference_never_repeats: "never_repeats reference_choco m"
  using distinct_all_solutions[of m]
  by (auto simp: never_repeats_def reference_choco_def nth_eq_iff_index_eq split: if_splits)

lemma first_solution_raises:
  assumes "raises_unsolved slv" "solve_seq slv m 0 = None" "rs \<noteq> []"
  shows "first_solution slv m rs = Inl NotInstantiated"
proof -
  obtain r rs' where rs: "rs = r # rs'" using assms(3) by (cases rs) auto
  have "value_unsolved slv m r = None" using assms(1) by (simp add: raises_unsolved_def)
  then have "get_value slv m r = Inl NotInstantiated" by (simp add: get_value_def assms(2))
  then show ?thesis by (simp add: rs)
qed

lemma solve_board_raises:
  assumes "valid_board b" "build_model b = Inr m" "raises_unsolved slv" "solve_seq slv m 0 = None"
  shows "solve_board slv b = Some (Inl NotInstantiated)"
proof -
  have "[0..<length b] \<noteq> []" using assms(1) by (simp add: valid_board_def)
  then have "first_solution slv m [0..<length b] = Inl NotInstantiated"
    by (rule first_solution_raises[OF assms(3,4)])
  then show ?thesis by (simp add: solve_board_def assms(2) get_puzzle_size_def)
qed

lemma count_other_solutions_until:
  assumes "seq j = None"
  shows "i \<le> j \<Longrightarrow> \<forall>k. i \<le> k \<and> k < j \<longrightarrow> seq k \<noteq> None \<Longrightarrow>
         count_other_solutions seq i c = Some (c + (j - i))"
proof (induction "j - i" arbitrary: i c)
  case 0
  then have "seq i = None" using assms by simp
  then show ?case using 0 by (subst count_other_solutions.simps) simp
next
  case (Suc d)
  then have lt: "i < j" by simp
  then have "i \<le> i \<and> i < j" by simp
  then have "seq i \<noteq> None" using Suc.prems(2) by blast
  then obtain q where q: "seq i = Some q" by (cases "seq i") auto
  have rest: "\<forall>k. Suc i \<le> k \<and> k < j \<longrightarrow> seq k \<noteq> None" using Suc.prems(2) by auto
  have "count_other_solutions seq (Suc i) (c + 1) = Some (c + 1 + (j - Suc i))"
    using Suc lt rest by (intro Suc.hyps) auto
  moreover have "c + 1 + (j - Suc i) = c + (j - i)" using lt by arith
  ultimately show ?case using q by (subst count_other_solutions.simps) simp
qed

lemma first_false:
  assumes "yields_solutions slv m" "never_repeats slv m"
  obtains j where "solve_seq slv m j = None" "\<forall>k<j. solve_seq slv m k \<noteq> None"
    "j \<le> card {q. is_solution m q}"
proof -
  let ?S = "{q. is_solution m q}"
  let ?g = "\<lambda>j. the (solve_seq slv m j)"
  have fin: "finite ?S" using solutions_bounded by blast
  have into: "?g ` I \<subseteq> ?S" and inj: "inj_on ?g I"
    if some: "\<forall>k\<in>I. solve_seq slv m k \<noteq> None" for I
  proof -
    show "?g ` I \<subseteq> ?S"
    proof
      fix q assume "q \<in> ?g ` I"
      then obtain k where k: "k \<in> I" "q = ?g k" by blast
      then have "solve_seq slv m k = Some q" using some by auto
      then show "q \<in> ?S" using assms(1) by (auto simp: yields_solutions_def)
    qed
    show "inj_on ?g I"
    proof (rule inj_onI)
      fix i k assume ik: "i \<in> I" "k \<in> I" "?g i = ?g k"
      obtain q where q: "solve_seq slv m i = Some q" using some ik(1) by auto
      then have q': "solve_seq slv m k = Some q" using some ik(2,3) by auto
      show "i = k"
      proof (rule ccontr)
        assume "i \<noteq> k"
        then consider "i < k" | "k < i" by linarith
        then show False using q q' assms(2) by cases (auto simp: never_repeats_def)
      qed
    qed
  qed
  have bound: "card I \<le> card ?S" if "\<forall>k\<in>I. solve_seq slv m k \<noteq> None" for I
    using card_inj_on_le[OF inj[OF that] into[OF that] fin] .
  have ex: "\<exists>j. solve_seq slv m j = None"
  proof (rule ccontr)
    assume "\<not> (\<exists>j. solve_seq slv m j = None)"
    then have "\<forall>k\<in>{0..card ?S}. solve_seq slv m k \<noteq> None" by simp
    from bound[OF this] show False by simp
  qed
  define j where "j = (LEAST j. solve_seq slv m j = None)"
  have j: "solve_seq slv m j = None" unfolding j_def using ex by (rule LeastI_ex)
  have before: "\<forall>k<j. solve_seq slv m k \<noteq> None"
    unfolding j_def using not_less_Least by blast
  then have "\<forall>k\<in>{0..<j}. solve_seq slv m k \<noteq> None" by simp
  from bound[OF this] have "j \<le> card ?S" by simp
  then show ?thesis using j before that by blast
qed

lemma solve_board_counts:
  assumes "valid_board b" "build_model b = Inr m"
    and "yields_solutions slv m" "never_repeats slv m"
    and "solve_seq slv m 0 = Some q0"
  shows "\<exists>j. 1 \<le> j \<and> j \<le> length b ^ length b \<and> solve_seq slv m j = None \<and>
           (\<forall>k<j. solve_seq slv m k \<noteq> None) \<and>
           solve_board slv b = Some (Inr \<lparr> number_of_solutions = j, initial_board = b,
               queens = map (\<lambda>r. (r, q0 ! r)) [0..<length b] \<rparr>)"
proof -
  obtain j where j: "solve_seq slv m j = None" "\<forall>k<j. solve_seq slv m k \<noteq> None"
    "j \<le> card {q. is_solution m q}"
    using first_false[OF assms(3,4)] by blast
  have j1: "Suc 0 \<le> j"
  proof (rule ccontr)
    assume "\<not> Suc 0 \<le> j"
    then have "j = 0" by simp
    then show False using j(1) assms(5) by simp
  qed
  have "card {q. is_solution m q} \<le> length b ^ length b"
    using solutions_bounded[of m] build_model_domain[OF assms(2)] by simp
  then have jn: "j \<le> length b ^ length b" using j(3) by linarith
  have "is_solution m q0" using assms(3,5) by (auto simp: yields_solutions_def)
  then have "length q0 = length b"
    using build_model_domain[OF assms(2)] by (simp add: is_solution_def)
  then have fs: "first_solution slv m [0..<length b] = Inr (map (\<lambda>r. (r, q0 ! r)) [0..<length b])"
    by (intro first_solution_found[OF assms(5)]) simp
  have "\<forall>k. Suc 0 \<le> k \<and> k < j \<longrightarrow> solve_seq slv m k \<noteq> None" using j(2) by blast
  from count_other_solutions_until[OF j(1) j1 this, of "Suc 0"]
  have "count_other_solutions (solve_seq slv m) (Suc 0) (Suc 0) = Some (Suc 0 + (j - Suc 0))" .
  moreover have "Suc 0 + (j - Suc 0) = j" using j1 by arith
  ultimately have cnt: "count_other_solutions (solve_seq slv m) (Suc 0) (Suc 0) = Some j" by simp
  have "solve_board slv b = Some (Inr \<lparr> number_of_solutions = j, initial_board = b,
               queens = map (\<lambda>r. (r, q0 ! r)) [0..<length b] \<rparr>)"
    by (simp add: solve_board_def assms(2) get_puzzle_size_def fs cnt)
  then show ?thesis using j1 jn j(1,2) by auto
qed

lemma reference_raises: "raises_unsolved reference_choco"
  by (simp add: raises_unsolved_def reference_choco_def)

section \<open>Lemmas: runs on the 4 by 4 board\<close>



lemma board4_run:
  "solve_puzzle reference_choco Map.empty None (Some board4)
     = Some (Inr \<lparr> number_of_solutions = 2, initial_board = board4,
                     queens = [(0, 2), (1, 0), (2, 3), (3, 1)] \<rparr>)"
  by code_simp

lemma rename_inj: "inj_on rename (set (concat board4))"
proof -
  have "set (concat board4) = {''0'', ''1'', ''2'', ''3''}"
    by (auto simp: board4_def)
  then show ?thesis by (simp add: rename_def)
qed

lemma rename_board4: "map (map rename) board4 = replicate 4 [''3'', ''r1'', ''r2'', ''0'']"
  by (simp add: board4_def rename_def)

section \<open>The claims\<close>

text \<open>
  Claim C10. Called with neither a path nor a matrix, \<open>solve_puzzle\<close> raises
  \<open>ValueError\<close>. The outcome is the same for every file system and every solver: no
  file is read, nothing is parsed and no search is made.
\<close>

theorem solve_puzzle_no_input:
  "solve_puzzle slv fs None None = Some (Inl (ValueError msg_no_input))"
  by (simp add: solve_puzzle_def)

text \<open>
  Claim C1. The claim: on a valid board that no assignment solves, the result has count 0
  and no first solution, and nothing is raised. The code ignores what the first
  \<open>solver.solve()\<close> returns, reads the variables all the same and starts the count at 1.
  So on such a board either reading a value raises, or a result comes back whose count
  is 1 and whose \<open>queens\<close> has an entry for every row: never count 0.
\<close>

theorem solve_puzzle_no_solution:
  assumes "valid_board b" "honours_contract slv" "\<forall>q. \<not> satisfies_rules b q"
  shows "solve_puzzle slv fs p (Some b) = Some (Inl NotInstantiated) \<or>
         (\<exists>qs. map fst qs = [0..<length b] \<and>
            solve_puzzle slv fs p (Some b)
              = Some (Inr \<lparr> number_of_solutions = 1, initial_board = b, queens = qs \<rparr>))"
proof -
  obtain m where m: "build_model b = Inr m" using build_model_valid[OF assms(1)] by blast
  have "enumerates slv m" using assms(2) by (simp add: honours_contract_def)
  then obtain sols where sols: "distinct sols" "set sols = {q. is_solution m q}"
    "\<forall>k. solve_seq slv m k = (if k < length sols then Some (sols ! k) else None)"
    by (rule enumerates_cases)
  have "sols = []" using sols(2) is_solution_iff_rules[OF assms(1) m] assms(3) by (cases sols) auto
  then have "\<forall>k. solve_seq slv m k = None" using sols(3) by simp
  from solve_board_none[OF m this] show ?thesis by (simp add: solve_puzzle_matrix)
qed

theorem solve_puzzle_no_solution_witness:
  "valid_board board2 \<and> honours_contract reference_choco \<and> (\<forall>q. \<not> satisfies_rules board2 q) \<and>
   solve_puzzle reference_choco Map.empty None (Some board2) = Some (Inl NotInstantiated)"
proof -
  have "solve_puzzle reference_choco Map.empty None (Some board2) \<noteq>
     Some (Inr \<lparr> number_of_solutions = 1, initial_board = board2, queens = qs \<rparr>)" for qs
    by code_simp
  then show ?thesis
    using solve_puzzle_no_solution[OF valid_board2 reference_honours board2_unsolvable, of Map.empty None]
    by (simp add: valid_board2 reference_honours board2_unsolvable)
qed

text \<open>
  Claim C2. On a valid board that has a solution, so that the first \<open>solver.solve()\<close>
  finds one, the \<open>queens\<close> returned give every row one column and satisfy the three rule
  families: distinct columns, consecutive rows more than one column apart, exactly one
  marker on each label.
\<close>

theorem solve_puzzle_first_solution_valid:
  assumes "valid_board b" "honours_contract slv" "\<exists>q. satisfies_rules b q"
    and "solve_puzzle slv fs p (Some b) = Some (Inr res)"
  shows "map fst (queens res) = [0..<length b] \<and> satisfies_rules b (map snd (queens res))"
proof -
  obtain m where m: "build_model b = Inr m" using build_model_valid[OF assms(1)] by blast
  have "enumerates slv m" using assms(2) by (simp add: honours_contract_def)
  then obtain sols where sols: "distinct sols" "set sols = {q. is_solution m q}"
    "\<forall>k. solve_seq slv m k = (if k < length sols then Some (sols ! k) else None)"
    by (rule enumerates_cases)
  have ne: "sols \<noteq> []" using sols(2) is_solution_iff_rules[OF assms(1) m] assms(3) by auto
  then have "hd sols \<in> set sols" by simp
  then have h: "satisfies_rules b (hd sols)" using sols(2) is_solution_iff_rules[OF assms(1) m] by auto
  then have len: "length (hd sols) = length b" by (simp add: satisfies_rules_def)
  have "queens res = map (\<lambda>r. (r, hd sols ! r)) [0..<length b]"
    using solve_board_found[OF m sols ne] assms(4) by (auto simp: solve_puzzle_matrix)
  moreover have "map ((!) (hd sols)) [0..<length b] = hd sols" using map_nth[of "hd sols"] len by simp
  ultimately show ?thesis using h by (simp add: comp_def)
qed

theorem solve_puzzle_first_solution_valid_witness:
  "valid_board board4 \<and> honours_contract reference_choco \<and> (\<exists>q. satisfies_rules board4 q) \<and>
   solve_puzzle reference_choco Map.empty None (Some board4)
     = Some (Inr \<lparr> number_of_solutions = 2, initial_board = board4,
                     queens = [(0, 2), (1, 0), (2, 3), (3, 1)] \<rparr>) \<and>
   satisfies_rules board4 [2, 0, 3, 1]"
proof -
  have run: "solve_puzzle reference_choco Map.empty None (Some board4)
     = Some (Inr \<lparr> number_of_solutions = 2, initial_board = board4,
                     queens = [(0, 2), (1, 0), (2, 3), (3, 1)] \<rparr>)"
    by code_simp
  have ex: "\<exists>q. satisfies_rules board4 q"
  proof
    show "satisfies_rules board4 [1, 3, 0, 2]" by code_simp
  qed
  show ?thesis
    using solve_puzzle_first_solution_valid[OF valid_board4 reference_honours ex run]
    by (simp add: valid_board4 reference_honours ex run)
qed



text \<open>
  Claim C7. For an assignment of a column to each of the \<open>n\<close> rows, the distance
  constraints that \<open>solve_puzzle\<close> posts between consecutive rows hold exactly when no two
  markers in different rows are at Chebyshev distance 1. Distinct columns are not needed
  for this, so it holds in particular for every permutation.
\<close>

theorem consecutive_rows_suffice:
  assumes "length q = n"
  shows "(\<forall>c\<in>set (adjacency_constraints n). holds q c) \<longleftrightarrow>
         (\<forall>i\<in>{0..<n}. \<forall>j\<in>{0..<n}. i \<noteq> j \<longrightarrow> chebyshev (int i, q ! i) (int j, q ! j) \<noteq> 1)"
    (is "?L \<longleftrightarrow> ?R")
proof
  assume L: ?L
  have adj: "\<bar>q ! i - q ! Suc i\<bar> > 1" if "Suc i < n" for i
    using L that by (force simp: adjacency_constraints_def)
  show ?R
  proof (intro ballI impI)
    fix i j assume ij: "i \<in> {0..<n}" "j \<in> {0..<n}" "i \<noteq> j"
    consider "j = Suc i" | "i = Suc j" | "\<bar>int i - int j\<bar> \<ge> 2" using ij(3) by linarith
    then show "chebyshev (int i, q ! i) (int j, q ! j) \<noteq> 1"
    proof cases
      case 1
      then show ?thesis using adj[of i] ij by (simp add: chebyshev_def)
    next
      case 2
      then show ?thesis using adj[of j] ij by (simp add: chebyshev_def abs_minus_commute)
    next
      case 3
      then show ?thesis by (simp add: chebyshev_def)
    qed
  qed
next
  assume R: ?R
  show ?L
  proof
    fix c assume "c \<in> set (adjacency_constraints n)"
    then obtain i where i: "c = DistanceGt i (i + 1) 1" "i < n - 1"
      by (auto simp: adjacency_constraints_def)
    then have "i \<in> {0..<n}" "Suc i \<in> {0..<n}" "i \<noteq> Suc i" by auto
    then have "chebyshev (int i, q ! i) (int (Suc i), q ! Suc i) \<noteq> 1"
      using R by blast
    then show "holds q c" using i by (simp add: chebyshev_def max_def split: if_splits)
  qed
qed

theorem consecutive_rows_suffice_witness:
  "length [1, 3, 0, 2 :: int] = 4 \<and> holds [1, 3, 0, 2] (DistanceGt 0 1 1) \<and>
   chebyshev (0, 1) (1, 3) \<noteq> 1"
proof -
  have "\<forall>c\<in>set (adjacency_constraints 4). holds [1, 3, 0, 2] c" by code_simp
  then show ?thesis
    using consecutive_rows_suffice[of "[1, 3, 0, 2]" 4] by (simp add: chebyshev_def)
qed

text \<open>
  Claim C8. For every grid, \<open>get_puzzle_regions\<close> returns one entry per distinct label of
  the grid; the entry of a label lists, row by row, exactly the cells that carry it, so
  it is never empty; no cell occurs twice in the lists taken together, and together they
  are all the cells of the grid, which for a valid board are the \<open>n\<close> times \<open>n\<close> cells
  of the board. Being a function of the grid, the result is the same on the same input.
\<close>

theorem get_puzzle_regions_partition:
  "distinct (map fst (get_puzzle_regions m)) \<and>
   set (map fst (get_puzzle_regions m)) = set (concat m) \<and>
   (\<forall>(v, cells)\<in>set (get_puzzle_regions m).
      cells \<noteq> [] \<and> cells = filter (\<lambda>(r, c). m ! r ! c = v) (grid_cells m)) \<and>
   distinct (concat (map snd (get_puzzle_regions m))) \<and>
   set (concat (map snd (get_puzzle_regions m))) = set (grid_cells m) \<and>
   (valid_board m \<longrightarrow>
      set (concat (map snd (get_puzzle_regions m))) = {0..<length m} \<times> {0..<length m})"
proof -
  let ?regs = "get_puzzle_regions m"
  let ?L = "labelled_cells m"
  have inv: "regions_inv ?L ?regs" by (rule get_puzzle_regions_inv)
  have keys: "distinct (map fst ?regs)" using inv by (simp add: regions_inv_def)
  have labels: "set (map fst ?regs) = set (concat m)"
    using inv by (simp add: regions_inv_def labels_labelled_cells)
  have cells: "cells = filter (\<lambda>(r, c). m ! r ! c = v) (grid_cells m)"
    if "(v, cells) \<in> set ?regs" for v cells
  proof -
    have "\<forall>(v, cells)\<in>set ?regs. cells = region_of ?L v"
      using inv unfolding regions_inv_def by blast
    then have "cells = region_of ?L v" using that by blast
    then show ?thesis by (simp only: region_of_filter)
  qed
  have nonempty: "cells \<noteq> []" if vc: "(v, cells) \<in> set ?regs" for v cells
  proof -
    have "v \<in> fst ` set ?regs" using vc by force
    then have "v \<in> fst ` set ?L" using inv unfolding regions_inv_def by blast
    then obtain rc where "(v, rc) \<in> set ?L" by auto
    then have "region_of ?L v \<noteq> []" by (force simp: region_of_def filter_empty_conv)
    moreover have "\<forall>(v, cells)\<in>set ?regs. cells = region_of ?L v"
      using inv unfolding regions_inv_def by blast
    then have "cells = region_of ?L v" using vc by blast
    ultimately show ?thesis by simp
  qed
  have dist: "distinct (concat (map snd ?regs))"
  proof (rule distinct_concat_regions[OF keys, where lab = "\<lambda>(r, c). m ! r ! c"], clarify)
    fix v cs assume "(v, cs) \<in> set ?regs"
    then have eq: "cs = filter (\<lambda>(r, c). m ! r ! c = v) (grid_cells m)" by (rule cells)
    have "distinct cs" by (subst eq) (simp add: distinct_grid_cells)
    moreover have "\<forall>x\<in>set cs. (case x of (r, c) \<Rightarrow> m ! r ! c) = v"
      by (subst eq) auto
    ultimately show "distinct cs \<and> (\<forall>x\<in>set cs. (case x of (r, c) \<Rightarrow> m ! r ! c) = v)" by blast
  qed
  have union: "set (concat (map snd ?regs)) = set (grid_cells m)"
  proof
    show "set (concat (map snd ?regs)) \<subseteq> set (grid_cells m)"
    proof
      fix x assume "x \<in> set (concat (map snd ?regs))"
      then obtain v cs where vc: "(v, cs) \<in> set ?regs" "x \<in> set cs" by auto
      have "cs = filter (\<lambda>(r, c). m ! r ! c = v) (grid_cells m)" using vc(1) by (rule cells)
      then have "set cs \<subseteq> set (grid_cells m)" by simp
      then show "x \<in> set (grid_cells m)" using vc(2) by blast
    qed
  next
    show "set (grid_cells m) \<subseteq> set (concat (map snd ?regs))"
    proof
      fix x assume x: "x \<in> set (grid_cells m)"
      obtain r c where rc: "x = (r, c)" by (cases x)
      have "(m ! r ! c, (r, c)) \<in> set ?L"
        using x rc by (auto simp: grid_cells_def set_labelled_cells)
      then have "m ! r ! c \<in> fst ` set ?L" by force
      then have "m ! r ! c \<in> fst ` set ?regs" using inv unfolding regions_inv_def by blast
      then obtain cs where cs: "(m ! r ! c, cs) \<in> set ?regs" by auto
      have "cs = filter (\<lambda>(r', c'). m ! r' ! c' = m ! r ! c) (grid_cells m)" using cs by (rule cells)
      then have "x \<in> set cs" using x rc by simp
      then show "x \<in> set (concat (map snd ?regs))" using cs by force
    qed
  qed
  have parts: "\<forall>(v, cells)\<in>set ?regs.
      cells \<noteq> [] \<and> cells = filter (\<lambda>(r, c). m ! r ! c = v) (grid_cells m)"
  proof (clarify, rule conjI)
    fix v cs assume vc: "(v, cs) \<in> set ?regs"
    show "cs \<noteq> []" using vc by (rule nonempty)
    show "cs = filter (\<lambda>(r, c). m ! r ! c = v) (grid_cells m)" using vc by (rule cells)
  qed
  have sq: "valid_board m \<longrightarrow> set (concat (map snd ?regs)) = {0..<length m} \<times> {0..<length m}"
    using union set_grid_cells_valid[of m] by simp
  show ?thesis
    using keys labels parts dist union sq by (intro conjI)
qed

theorem get_puzzle_regions_partition_witness:
  "get_puzzle_regions board2 = [(''0'', [(0, 0), (1, 1)]), (''1'', [(0, 1), (1, 0)])] \<and>
   valid_board board2 \<and>
   set (concat (map snd (get_puzzle_regions board2))) = {0..<2} \<times> {0..<2}"
proof -
  have run: "get_puzzle_regions board2 = [(''0'', [(0, 0), (1, 1)]), (''1'', [(0, 1), (1, 0)])]"
    by code_simp
  have len: "length board2 = 2" by (simp add: board2_def)
  have "set (concat (map snd (get_puzzle_regions board2))) = {0..<length board2} \<times> {0..<length board2}"
    using get_puzzle_regions_partition[of board2] valid_board2 by blast
  then show ?thesis using run valid_board2 len by simp
qed

text \<open>
  Claim C5. \<open>solve_puzzle\<close> draws no random number and keeps no state between calls; with
  the library taken as a function of the model it is given, two runs on the same board
  are the same computation, whatever file system and path they are given besides the
  matrix. What the result owes to the labels is only which cells share one: renaming
  the labels one to one changes neither the count nor the queens, only the board handed
  back. This holds for every solver, whatever its search order.
\<close>

theorem solve_puzzle_relabel:
  assumes "inj_on f (set (concat b))"
  shows "solve_puzzle slv fs' p' (Some (map (map f) b))
         = map_option (map_sum id (\<lambda>res. res\<lparr>initial_board := map (map f) b\<rparr>))
             (solve_puzzle slv fs p (Some b))"
  unfolding solve_puzzle_matrix
  by (simp add: solve_board_def build_model_relabel[OF assms] get_puzzle_size_def
        option.map_comp comp_def split: sum.splits)

theorem solve_puzzle_relabel_witness:
  "inj_on rename (set (concat board4)) \<and>
   map (map rename) board4 = replicate 4 [''3'', ''r1'', ''r2'', ''0''] \<and>
   solve_puzzle reference_choco Map.empty None (Some board4)
     = Some (Inr \<lparr> number_of_solutions = 2, initial_board = board4,
                     queens = [(0, 2), (1, 0), (2, 3), (3, 1)] \<rparr>) \<and>
   solve_puzzle reference_choco Map.empty None (Some (replicate 4 [''3'', ''r1'', ''r2'', ''0'']))
     = Some (Inr \<lparr> number_of_solutions = 2,
                     initial_board = replicate 4 [''3'', ''r1'', ''r2'', ''0''],
                     queens = [(0, 2), (1, 0), (2, 3), (3, 1)] \<rparr>)"
proof -
  have "solve_puzzle reference_choco Map.empty None (Some (map (map rename) board4))
      = map_option (map_sum id (\<lambda>res. res\<lparr>initial_board := map (map rename) board4\<rparr>))
          (solve_puzzle reference_choco Map.empty None (Some board4))"
    by (rule solve_puzzle_relabel[OF rename_inj])
  then have renamed:
    "solve_puzzle reference_choco Map.empty None (Some (replicate 4 [''3'', ''r1'', ''r2'', ''0'']))
     = Some (Inr \<lparr> number_of_solutions = 2,
                     initial_board = replicate 4 [''3'', ''r1'', ''r2'', ''0''],
                     queens = [(0, 2), (1, 0), (2, 3), (3, 1)] \<rparr>)"
    unfolding board4_run rename_board4 by simp
  show ?thesis
    using rename_inj rename_board4 board4_run renamed by (intro conjI)
qed

text \<open>
  Claim C3, as the code has it. The parser raises \<open>ValueError\<close> exactly when the text has
  no row or two rows of different lengths, and then \<open>solve_puzzle\<close> ends with that error
  for every solver: nothing is searched. Every other text is accepted as it is, and the
  search runs on its rows. The code has no check that the grid is square.
\<close>

theorem parse_rejects_ragged_or_empty:
  assumes "fs p = Some txt"
  shows "(parse_rows txt = [] \<or> (\<exists>r\<in>set (parse_rows txt). length r \<noteq> length (hd (parse_rows txt)))
           \<longrightarrow> parse_board_from_txt fs p = Inl (ValueError msg_row_lengths) \<and>
               solve_puzzle slv fs (Some p) None = Some (Inl (ValueError msg_row_lengths)))
       \<and> (\<not> (parse_rows txt = [] \<or> (\<exists>r\<in>set (parse_rows txt). length r \<noteq> length (hd (parse_rows txt))))
           \<longrightarrow> parse_board_from_txt fs p = Inr (parse_rows txt) \<and>
               solve_puzzle slv fs (Some p) None = solve_board slv (parse_rows txt))"
proof (intro conjI impI)
  assume a: "parse_rows txt = [] \<or> (\<exists>r\<in>set (parse_rows txt). length r \<noteq> length (hd (parse_rows txt)))"
  show "parse_board_from_txt fs p = Inl (ValueError msg_row_lengths)"
    by (rule parse_board_rejects[where fs = fs and p = p, OF assms a])
  then show "solve_puzzle slv fs (Some p) None = Some (Inl (ValueError msg_row_lengths))"
    by (simp only: solve_puzzle_path sum.case)
next
  assume a: "\<not> (parse_rows txt = [] \<or> (\<exists>r\<in>set (parse_rows txt). length r \<noteq> length (hd (parse_rows txt))))"
  show "parse_board_from_txt fs p = Inr (parse_rows txt)"
    by (rule parse_board_accepts[where fs = fs and p = p, OF assms a])
  then show "solve_puzzle slv fs (Some p) None = solve_board slv (parse_rows txt)"
    by (simp only: solve_puzzle_path sum.case)
qed

theorem parse_rejects_ragged_or_empty_witness:
  "(Map.empty(''p'' \<mapsto> text_ragged)) ''p'' = Some text_ragged \<and>
   parse_rows text_ragged = [[''0'', ''1''], [''0'']] \<and>
   solve_puzzle reference_choco (Map.empty(''p'' \<mapsto> text_ragged)) (Some ''p'') None
     = Some (Inl (ValueError msg_row_lengths))"
proof -
  have fs: "(Map.empty(''p'' \<mapsto> text_ragged)) ''p'' = Some text_ragged" by simp
  have rows: "parse_rows text_ragged = [[''0'', ''1''], [''0'']]" by code_simp
  show ?thesis
    using parse_rejects_ragged_or_empty[of "Map.empty(''p'' \<mapsto> text_ragged)" "''p''"
        text_ragged reference_choco] fs rows
    by simp
qed

text \<open>
  Claim C3 as stated fails for a grid that is not square: a text of four rows of three
  labels is parsed without error.
\<close>

theorem parse_accepts_non_square:
  "parse_board_from_txt (Map.empty(''p'' \<mapsto> text43)) ''p'' = Inr board43 \<and>
   length board43 = 4 \<and> length (hd board43) = 3 \<and> \<not> valid_board board43"
proof -
  have "parse_board_from_txt (Map.empty(''p'' \<mapsto> text43)) ''p'' = Inr board43"
    by code_simp
  moreover have "\<not> valid_board board43" by (simp add: valid_board_def board43_def)
  ultimately show ?thesis by (simp add: board43_def)
qed

text \<open>
  Claim C9. The recursion over rows is inside the library, where each \<open>solve()\<close> is taken
  to return; what the repository adds is the loop that calls \<open>solve()\<close> until it returns
  false. With a library whose \<open>solve()\<close> only finds assignments that satisfy the posted
  constraints and never one it found before, that loop ends on every valid board: there
  are at most \<open>n ^ n\<close> assignments over the domain, so some call returns false, and the
  count returned is the number \<open>j\<close> of calls before it, at most \<open>n ^ n\<close>. A result is
  returned only when the first \<open>solve()\<close> found a solution; when it found none, the call
  ends by raising, where the claim says a result is returned.
\<close>

theorem solve_puzzle_terminates:
  assumes "valid_board b" "\<forall>m. yields_solutions slv m \<and> never_repeats slv m"
    and "raises_unsolved slv"
  shows "\<exists>m. build_model b = Inr m \<and>
      (solve_seq slv m 0 = None \<longrightarrow>
         solve_puzzle slv fs p (Some b) = Some (Inl NotInstantiated)) \<and>
      (\<forall>q0. solve_seq slv m 0 = Some q0 \<longrightarrow>
         (\<exists>j. 1 \<le> j \<and> j \<le> length b ^ length b \<and> solve_seq slv m j = None \<and>
              (\<forall>k<j. solve_seq slv m k \<noteq> None) \<and>
              solve_puzzle slv fs p (Some b)
                = Some (Inr \<lparr> number_of_solutions = j, initial_board = b,
                     queens = map (\<lambda>r. (r, q0 ! r)) [0..<length b] \<rparr>)))"
proof -
  obtain m where m: "build_model b = Inr m" using build_model_valid[OF assms(1)] by blast
  have y: "yields_solutions slv m" and n: "never_repeats slv m" using assms(2) by blast+
  have none: "solve_puzzle slv fs p (Some b) = Some (Inl NotInstantiated)"
    if "solve_seq slv m 0 = None"
    unfolding solve_puzzle_matrix by (rule solve_board_raises[OF assms(1) m assms(3) that])
  have some: "\<exists>j. 1 \<le> j \<and> j \<le> length b ^ length b \<and> solve_seq slv m j = None \<and>
              (\<forall>k<j. solve_seq slv m k \<noteq> None) \<and>
              solve_puzzle slv fs p (Some b)
                = Some (Inr \<lparr> number_of_solutions = j, initial_board = b,
                     queens = map (\<lambda>r. (r, q0 ! r)) [0..<length b] \<rparr>)"
    if "solve_seq slv m 0 = Some q0" for q0
    unfolding solve_puzzle_matrix by (rule solve_board_counts[OF assms(1) m y n that])
  show ?thesis
    by (rule exI[of _ m]) (intro conjI impI allI, rule m, erule none, erule some)
qed

theorem solve_puzzle_terminates_witness:
  "valid_board board4 \<and> valid_board board2 \<and>
   (\<forall>m. yields_solutions reference_choco m \<and> never_repeats reference_choco m) \<and>
   raises_unsolved reference_choco \<and>
   solve_puzzle reference_choco Map.empty None (Some board4)
     = Some (Inr \<lparr> number_of_solutions = 2, initial_board = board4,
                     queens = [(0, 2), (1, 0), (2, 3), (3, 1)] \<rparr>) \<and>
   solve_puzzle reference_choco Map.empty None (Some board2) = Some (Inl NotInstantiated)"
proof -
  have h: "\<forall>m. yields_solutions reference_choco m \<and> never_repeats reference_choco m"
    by (simp add: reference_yields reference_never_repeats)
  have run2: "solve_puzzle reference_choco Map.empty None (Some board2) = Some (Inl NotInstantiated)"
    by code_simp
  show ?thesis
    using solve_puzzle_terminates[OF valid_board4 h reference_raises, of Map.empty None]
      solve_puzzle_terminates[OF valid_board2 h reference_raises, of Map.empty None]
    by (simp add: valid_board4 valid_board2 h reference_raises board4_run run2)
qed


end
